theory Spec2Isabelle
  imports Main "HOL-Library.Word" "HOL-Library.Multiset"
begin

unbundle bit_operations_syntax

section \<open>Data model (main.go)\<close>

text \<open>
  \<^verbatim>\<open>type FileHash struct { Pathname string; Size int64; Hash string }\<close>:
  the request for, and the response to, hashing one file.
\<close>

type_synonym int64 = "64 word"

record FileHash =
  Pathname :: string
  Size :: int64
  Hash :: string

text \<open>
  \<^verbatim>\<open>type CollisionTable map[string][]string\<close>: file hash to list of
  path names. \<open>len\<close> of a Go map is the number of its keys.
\<close>

type_synonym CollisionTable = "string \<rightharpoonup> string list"

definition len_map :: "CollisionTable \<Rightarrow> nat" where
  "len_map m = card (dom m)"

section \<open>The digest engine (hashData)\<close>

type_synonym byte = "8 word"

text \<open>
  \<^verbatim>\<open>hex.EncodeToString\<close>: two characters per byte, the high nibble first, each
  looked up in the table \<^verbatim>\<open>"0123456789abcdef"\<close>.
\<close>

definition hextable :: string where
  "hextable = ''0123456789abcdef''"

fun EncodeToString :: "byte list \<Rightarrow> string" where
  "EncodeToString [] = []"
| "EncodeToString (v # src) =
     hextable ! unat (drop_bit 4 v) # hextable ! unat (v AND 0x0f) # EncodeToString src"

text \<open>
  What one \<^verbatim>\<open>os.Open\<close> followed by \<^verbatim>\<open>io.Copy(hasher, file)\<close> meets: the open
  fails, the copy fails partway, or the whole contents reach the hasher. A file may
  change between two reads, so the file system is indexed by the number of reads made
  so far.
\<close>

datatype error = OpenError | ReadError | AccessError

datatype read_outcome = OpenFails | CopyFails | Contents "byte list"

type_synonym filesys = "nat \<Rightarrow> string \<Rightarrow> read_outcome"

text \<open>
  A hash algorithm (\<^verbatim>\<open>sha512.New()\<close>, \<^verbatim>\<open>md5.New()\<close>) is a parameter: the function
  from the bytes written to a fresh hasher to the digest \<^verbatim>\<open>Sum(nil)\<close> returns.
\<close>

type_synonym hasher = "byte list \<Rightarrow> byte list"

text \<open>\<open>hashData\<close> returns its result and the read count after the call.\<close>

definition hashData :: "filesys \<Rightarrow> nat \<Rightarrow> string \<Rightarrow> hasher \<Rightarrow> (error + string) \<times> nat" where
  "hashData fs t pathname hash_sum =
     (case fs t pathname of
        OpenFails \<Rightarrow> (Inl OpenError, Suc t)
      | CopyFails \<Rightarrow> (Inl ReadError, Suc t)
      | Contents bs \<Rightarrow> (Inr (EncodeToString (hash_sum bs)), Suc t))"

section \<open>The worker (hashRequest, hashingWorker)\<close>

text \<open>
  \<^verbatim>\<open>strings.ReplaceAll(request.Pathname, "\\", "/")\<close>: pattern and replacement are one
  byte each, so the replacement is byte for byte. The backslash is byte \<open>0x5C\<close>.
\<close>

definition ReplaceAll_backslash :: "string \<Rightarrow> string" where
  "ReplaceAll_backslash s = map (\<lambda>c. if c = CHR 0x5C then CHR ''/'' else c) s"

text \<open>
  \<^verbatim>\<open>fmt.Sprintf("%016d.%s", request.Size, hashString)\<close>. The verb \<^verbatim>\<open>%016d\<close> writes
  the decimal digits of the magnitude, pads them with zeros on the left to the width
  (one less when a sign is written), and puts the sign of a negative number first. A
  number with more digits than the width is written in full.
\<close>

definition digit :: "nat \<Rightarrow> char" where
  "digit u = ''0123456789'' ! u"

function digits :: "nat \<Rightarrow> string" where
  "digits u = (if u < 10 then [digit u] else digits (u div 10) @ [digit (u mod 10)])"
  by pat_completeness auto
termination
  by (relation "measure id") auto

declare digits.simps [simp del]

definition pad0 :: "nat \<Rightarrow> string \<Rightarrow> string" where
  "pad0 w s = replicate (w - length s) CHR ''0'' @ s"

definition fmt_016d :: "int \<Rightarrow> string" where
  "fmt_016d n =
     (if n < 0 then CHR ''-'' # pad0 15 (digits (nat (- n))) else pad0 16 (digits (nat n)))"

definition Sprintf_hash :: "int64 \<Rightarrow> string \<Rightarrow> string" where
  "Sprintf_hash sz hashString = fmt_016d (sint sz) @ ''.'' @ hashString"

text \<open>
  \<open>hashRequest\<close>: \<open>None\<close> is the \<^verbatim>\<open>nil\<close> it returns when a read fails. The flag
  \<^verbatim>\<open>*Thorough\<close> and the two hash algorithms are arguments.
\<close>

definition hashRequest ::
  "bool \<Rightarrow> hasher \<Rightarrow> hasher \<Rightarrow> filesys \<Rightarrow> nat \<Rightarrow> FileHash \<Rightarrow> FileHash option \<times> nat" where
  "hashRequest thorough sha512_sum md5_sum fs t request =
     (let pathname = ReplaceAll_backslash (Pathname request) in
      case hashData fs t pathname sha512_sum of
        (Inl err, t1) \<Rightarrow> (None, t1)
      | (Inr hashString, t1) \<Rightarrow>
          if thorough then
            (case hashData fs t1 pathname md5_sum of
               (Inl err, t2) \<Rightarrow> (None, t2)
             | (Inr md5String, t2) \<Rightarrow>
                 (Some (request\<lparr>Pathname := pathname,
                    Hash := Sprintf_hash (Size request) (hashString @ ''.'' @ md5String)\<rparr>), t2))
          else
            (Some (request\<lparr>Pathname := pathname,
               Hash := Sprintf_hash (Size request) hashString\<rparr>), t1))"

text \<open>
  \<open>hashingWorker\<close>: the requests one worker takes from the request channel, in order;
  the result is the list of replies it sends, in order.
\<close>

fun hashingWorker ::
  "bool \<Rightarrow> hasher \<Rightarrow> hasher \<Rightarrow> filesys \<Rightarrow> nat \<Rightarrow> FileHash list \<Rightarrow> FileHash list" where
  "hashingWorker thorough sha512_sum md5_sum fs t [] = []"
| "hashingWorker thorough sha512_sum md5_sum fs t (request # requests) =
     (case hashRequest thorough sha512_sum md5_sum fs t request of
        (None, t') \<Rightarrow> hashingWorker thorough sha512_sum md5_sum fs t' requests
      | (Some reply, t') \<Rightarrow> reply # hashingWorker thorough sha512_sum md5_sum fs t' requests)"

section \<open>The walker (walkFn, walkFiles)\<close>

text \<open>
  \<^verbatim>\<open>os.FileInfo\<close>, as far as \<open>walkFn\<close> reads it: the methods \<^verbatim>\<open>IsDir()\<close> and
  \<^verbatim>\<open>Size()\<close>. \<^verbatim>\<open>filepath.Walk\<close> passes a \<^verbatim>\<open>nil\<close> info (\<open>None\<close>) when the
  \<^verbatim>\<open>Lstat\<close> of the entry failed.
\<close>

record FileInfo =
  IsDir :: bool
  InfoSize :: int64

text \<open>The global counters and the request channel, as the walker leaves them.\<close>

record walk_state =
  totalFiles :: int64
  underSizedFiles :: int64
  hashingFiles :: int64
  hashReqCh :: "FileHash list"

definition walk_init :: walk_state where
  "walk_init = \<lparr>totalFiles = 0, underSizedFiles = 0, hashingFiles = 0, hashReqCh = []\<rparr>"

datatype panic = NilPointerDereference | ThreadsBelowOne

text \<open>
  \<open>walkFn\<close>. Calling \<^verbatim>\<open>info.IsDir()\<close> on a \<^verbatim>\<open>nil\<close> interface value panics.
  \<open>minBytes\<close> is \<^verbatim>\<open>*MinBytes\<close>, a Go \<open>int\<close>; its conversion to \<open>int64\<close> keeps
  the value, so the comparison is one of integers.
\<close>

definition walkFn ::
  "int \<Rightarrow> string \<Rightarrow> FileInfo option \<Rightarrow> error option \<Rightarrow> walk_state \<Rightarrow> panic + walk_state" where
  "walkFn minBytes path info fileErr st =
     (case info of
        None \<Rightarrow> Inl NilPointerDereference
      | Some i \<Rightarrow>
          if IsDir i then Inr st
          else
            let st1 = st\<lparr>totalFiles := totalFiles st + 1\<rparr> in
            if fileErr \<noteq> None then Inr st1
            else if InfoSize i = 0 \<or> sint (InfoSize i) < minBytes then
              Inr (st1\<lparr>underSizedFiles := underSizedFiles st1 + 1\<rparr>)
            else
              Inr (st1\<lparr>hashingFiles := hashingFiles st1 + 1,
                       hashReqCh := hashReqCh st1 @
                         [\<lparr>Pathname = path, Size = InfoSize i, Hash = ''''\<rparr>]\<rparr>))"

text \<open>
  \<^verbatim>\<open>filepath.Walk(*BasePath, walkFn)\<close>: the traversal is the list of calls it makes,
  each a path, an info and an error. \<open>walkFn\<close> never returns an error, so only a panic
  ends the traversal early.
\<close>

type_synonym entry = "string \<times> FileInfo option \<times> error option"

fun Walk :: "int \<Rightarrow> entry list \<Rightarrow> walk_state \<Rightarrow> panic + walk_state" where
  "Walk minBytes [] st = Inr st"
| "Walk minBytes ((path, info, fileErr) # es) st =
     (case walkFn minBytes path info fileErr st of
        Inl p \<Rightarrow> Inl p
      | Inr st' \<Rightarrow> Walk minBytes es st')"

section \<open>The aggregator (aggregateHashes)\<close>

text \<open>
  The state of the loop of \<open>aggregateHashes\<close> is the pair of its two local
  dictionaries, \<open>singles\<close> first and \<open>collisions\<close> second. They start empty.
\<close>

type_synonym agg_state = "CollisionTable \<times> CollisionTable"

definition agg_init :: agg_state where
  "agg_init = (Map.empty, Map.empty)"

text \<open>
  One iteration of \<^verbatim>\<open>for response := range replies\<close>. A Go lookup
  \<^verbatim>\<open>_, exists := m[k]\<close> tests whether the key is present; reading
  \<^verbatim>\<open>m[k]\<close> for a present key gives its slice, and \<open>append\<close> adds the
  path at the end.
\<close>

definition aggregate_step :: "agg_state \<Rightarrow> FileHash \<Rightarrow> agg_state" where
  "aggregate_step st response =
     (let singles = fst st; collisions = snd st in
      case collisions (Hash response) of
        Some bucket \<Rightarrow>
          (singles, collisions(Hash response \<mapsto> bucket @ [Pathname response]))
      | None \<Rightarrow>
          (case singles (Hash response) of
             Some single \<Rightarrow>
               (singles(Hash response := None),
                collisions(Hash response \<mapsto> single @ [Pathname response]))
           | None \<Rightarrow>
               (singles(Hash response \<mapsto> [Pathname response]), collisions)))"

text \<open>
  The loop over the reply channel: the channel is closed after finitely many replies,
  so what the loop consumes is a finite list, in arrival order.
\<close>

definition aggregate_loop :: "FileHash list \<Rightarrow> agg_state" where
  "aggregate_loop replies = foldl aggregate_step agg_init replies"

text \<open>
  The figures of the log line that \<open>aggregateHashes\<close> prints after the loop:
  \<^verbatim>\<open>Misses: len(singles), Collisions: collidingFiles, Hashes: len(collisions), Dupes: duplicates\<close>.
  The argument \<open>nHashing\<close> is the value of the walker's global counter
  \<open>hashingFiles\<close> when the loop ends; the subtractions are on \<open>int64\<close>.
\<close>

record report =
  Misses :: nat
  Collisions :: int64
  Hashes :: nat
  Dupes :: int64

definition aggregateHashes :: "int64 \<Rightarrow> FileHash list \<Rightarrow> CollisionTable \<times> report" where
  "aggregateHashes nHashing replies =
     (let st = aggregate_loop replies;
          singles = fst st;
          collisions = snd st;
          collidingFiles = nHashing - of_nat (len_map singles);
          duplicates = collidingFiles - of_nat (len_map collisions)
      in (collisions,
          \<lparr>Misses = len_map singles, Collisions = collidingFiles,
           Hashes = len_map collisions, Dupes = duplicates\<rparr>))"

text \<open>The table that \<open>aggregateHashes\<close> returns.\<close>

definition collisions_of :: "FileHash list \<Rightarrow> CollisionTable" where
  "collisions_of replies = fst (aggregateHashes 0 replies)"

section \<open>The pipeline (main)\<close>

record flags =
  BasePath :: string
  MinBytes :: int
  Threads :: int
  Thorough :: bool
  ListCollisions :: bool

text \<open>\<^verbatim>\<open>if *MinBytes < 0 { *MinBytes = 0 }\<close>\<close>

definition clamp_MinBytes :: "int \<Rightarrow> int" where
  "clamp_MinBytes mb = (if mb < 0 then 0 else mb)"

text \<open>
  \<open>main\<close> after flag parsing, under the schedule in which one worker takes every
  request: the walk, the worker, the aggregation. The result is the table, the
  figures of the log line and the walker's final state.
\<close>

definition scan ::
  "flags \<Rightarrow> hasher \<Rightarrow> hasher \<Rightarrow> entry list \<Rightarrow> filesys \<Rightarrow>
   panic + ((CollisionTable \<times> report) \<times> walk_state)" where
  "scan fl sha512_sum md5_sum entries fs =
     (if Threads fl < 1 then Inl ThreadsBelowOne
      else
        case Walk (clamp_MinBytes (MinBytes fl)) entries walk_init of
          Inl p \<Rightarrow> Inl p
        | Inr ws \<Rightarrow>
            Inr (aggregateHashes (hashingFiles ws)
                   (hashingWorker (Thorough fl) sha512_sum md5_sum fs 0 (hashReqCh ws)), ws))"

section \<open>Notions used in the statements\<close>

text \<open>The invariant of the aggregation loop.\<close>

definition buckets_ge2 :: "CollisionTable \<Rightarrow> bool" where
  "buckets_ge2 collisions = (\<forall>h ps. collisions h = Some ps \<longrightarrow> 2 \<le> length ps)"

definition singles_one :: "CollisionTable \<Rightarrow> bool" where
  "singles_one singles = (\<forall>h ps. singles h = Some ps \<longrightarrow> length ps = 1)"

definition agg_inv :: "agg_state \<Rightarrow> bool" where
  "agg_inv st = (singles_one (fst st) \<and> buckets_ge2 (snd st) \<and> dom (fst st) \<inter> dom (snd st) = {})"

text \<open>
  The paths of the replies that carry the hash \<open>h\<close>, in arrival order.
\<close>

definition paths_for :: "string \<Rightarrow> FileHash list \<Rightarrow> string list" where
  "paths_for h rs = map Pathname (filter (\<lambda>r. Hash r = h) rs)"

text \<open>
  The request channel after a call of \<open>walkFn\<close>: a call that panics sends nothing.
\<close>

definition queue_after :: "walk_state \<Rightarrow> panic + walk_state \<Rightarrow> FileHash list" where
  "queue_after st res = (case res of Inl p \<Rightarrow> hashReqCh st | Inr st' \<Rightarrow> hashReqCh st')"

text \<open>
  An entry that \<open>walkFn\<close> skips for its access error: it has an info, is not a
  directory and comes with an error.
\<close>

definition access_error_skip :: "entry \<Rightarrow> bool" where
  "access_error_skip e =
     (case e of (path, info, fileErr) \<Rightarrow>
        (case info of None \<Rightarrow> False | Some i \<Rightarrow> \<not> IsDir i \<and> fileErr \<noteq> None))"

text \<open>
  Reading back what the formatting wrote: the number a string of decimal digits denotes,
  and the bytes a string of hexadecimal digits denotes.
\<close>

definition decimal_value :: "string \<Rightarrow> nat" where
  "decimal_value s = foldl (\<lambda>a c. 10 * a + (of_char c - 48)) 0 s"

definition nibble_value :: "char \<Rightarrow> nat" where
  "nibble_value c = (if (of_char c :: nat) < 58 then of_char c - 48 else of_char c - 87)"

fun DecodeString :: "string \<Rightarrow> byte list" where
  "DecodeString (a # b # s) = of_nat (16 * nibble_value a + nibble_value b) # DecodeString s"
| "DecodeString s = []"

text \<open>
  What the hash of a reply is made of, said without the functions that write it. A
  padded decimal of width \<open>w\<close> for \<open>n\<close>: decimal digits that denote \<open>n\<close>, at least \<open>w\<close> of
  them, with no zero in front once there are more than \<open>w\<close>. The size text of \<open>n\<close>: a
  padded decimal of width 16, or a minus sign and one of width 15 for a negative \<open>n\<close>.
  The lowercase hexadecimal text of a digest: two characters of \<open>0-9a-f\<close> per byte that
  denote the digest.
\<close>

definition is_padded_decimal :: "nat \<Rightarrow> nat \<Rightarrow> string \<Rightarrow> bool" where
  "is_padded_decimal w n s =
     (set s \<subseteq> set ''0123456789'' \<and> decimal_value s = n \<and> w \<le> length s \<and>
      (w < length s \<longrightarrow> hd s \<noteq> CHR ''0''))"

definition is_size_text :: "int \<Rightarrow> string \<Rightarrow> bool" where
  "is_size_text n s =
     (if 0 \<le> n then is_padded_decimal 16 (nat n) s
      else s \<noteq> [] \<and> hd s = CHR ''-'' \<and> is_padded_decimal 15 (nat (- n)) (tl s))"

definition is_lower_hex :: "byte list \<Rightarrow> string \<Rightarrow> bool" where
  "is_lower_hex d s =
     (set s \<subseteq> set ''0123456789abcdef'' \<and> length s = 2 * length d \<and> DecodeString s = d)"

text \<open>
  The number of paths in the buckets of a table, and the count that the aggregation
  loop keeps: every reply consumed is either the single path of its hash or one of the
  paths of a bucket.
\<close>

definition paths_in_buckets :: "CollisionTable \<Rightarrow> nat" where
  "paths_in_buckets collisions = (\<Sum>h \<in> dom collisions. length (the (collisions h)))"

definition agg_count :: "agg_state \<Rightarrow> nat \<Rightarrow> bool" where
  "agg_count st n =
     (finite (dom (fst st)) \<and> finite (dom (snd st)) \<and>
      len_map (fst st) + paths_in_buckets (snd st) = n)"

section \<open>The invariant of the aggregation loop\<close>

lemma agg_inv_init: "agg_inv agg_init"
  by (simp add: agg_inv_def agg_init_def singles_one_def buckets_ge2_def)

lemma agg_inv_step:
  assumes "agg_inv st"
  shows "agg_inv (aggregate_step st r)"
proof -
  obtain s c where st: "st = (s, c)" by (cases st)
  from assms st have s1: "singles_one s" and c2: "buckets_ge2 c" and dj: "dom s \<inter> dom c = {}"
    by (simp_all add: agg_inv_def)
  show ?thesis
  proof (cases "c (Hash r)")
    case (Some bucket)
    with c2 have len: "2 \<le> length bucket" by (simp add: buckets_ge2_def)
    have "buckets_ge2 (c(Hash r \<mapsto> bucket @ [Pathname r]))"
      using c2 len unfolding buckets_ge2_def by auto
    moreover have "dom s \<inter> dom (c(Hash r \<mapsto> bucket @ [Pathname r])) = {}"
      using dj Some by auto
    ultimately show ?thesis
      using Some st s1 by (simp add: aggregate_step_def agg_inv_def)
  next
    case cNone: None
    show ?thesis
    proof (cases "s (Hash r)")
      case (Some single)
      with s1 have len: "length single = 1" by (simp add: singles_one_def)
      have "singles_one (s(Hash r := None))"
        using s1 unfolding singles_one_def by auto
      moreover have "buckets_ge2 (c(Hash r \<mapsto> single @ [Pathname r]))"
        using c2 len unfolding buckets_ge2_def by auto
      moreover have "dom (s(Hash r := None)) \<inter> dom (c(Hash r \<mapsto> single @ [Pathname r])) = {}"
        using dj by auto
      ultimately show ?thesis
        using Some cNone st by (simp add: aggregate_step_def agg_inv_def)
    next
      case None
      have "singles_one (s(Hash r \<mapsto> [Pathname r]))"
        using s1 unfolding singles_one_def by auto
      moreover have "dom (s(Hash r \<mapsto> [Pathname r])) \<inter> dom c = {}"
        using dj cNone by auto
      ultimately show ?thesis
        using None cNone c2 st by (simp add: aggregate_step_def agg_inv_def)
    qed
  qed
qed

lemma agg_inv_foldl: "agg_inv st \<Longrightarrow> agg_inv (foldl aggregate_step st rs)"
  by (induction rs arbitrary: st) (simp_all add: agg_inv_step)

lemma agg_inv_loop: "agg_inv (aggregate_loop rs)"
  by (simp add: aggregate_loop_def agg_inv_foldl agg_inv_init)

lemma aggregate_loop_snoc:
  "aggregate_loop (rs @ [r]) = aggregate_step (aggregate_loop rs) r"
  by (simp add: aggregate_loop_def)

text \<open>
  The state after \<open>k\<close> iterations of the loop is the loop run on the first \<open>k\<close>
  replies.
\<close>

lemma aggregate_loop_take_Suc:
  "k < length rs \<Longrightarrow>
   aggregate_loop (take (Suc k) rs) = aggregate_step (aggregate_loop (take k rs)) (rs ! k)"
  by (simp add: take_Suc_conv_app_nth aggregate_loop_snoc)

lemma aggregateHashes_table: "fst (aggregateHashes n rs) = snd (aggregate_loop rs)"
  by (simp add: aggregateHashes_def Let_def)

text \<open>
  What the two dictionaries hold after any sequence of replies: a hash with one reply is
  in \<open>singles\<close>, a hash with two or more is in \<open>collisions\<close>, bound to its paths in
  arrival order.
\<close>

lemma paths_for_snoc:
  "paths_for h (rs @ [r]) = (if Hash r = h then paths_for h rs @ [Pathname r] else paths_for h rs)"
  by (simp add: paths_for_def)

lemma no_paths: "length (xs :: 'a list) \<noteq> Suc 0 \<Longrightarrow> \<not> 2 \<le> length xs \<Longrightarrow> xs = []"
  by (cases "length xs") auto

lemma aggregate_loop_char:
  "fst (aggregate_loop rs) h = (if length (paths_for h rs) = 1 then Some (paths_for h rs) else None) \<and>
   snd (aggregate_loop rs) h = (if 2 \<le> length (paths_for h rs) then Some (paths_for h rs) else None)"
proof (induction rs arbitrary: h rule: rev_induct)
  case Nil
  show ?case by (simp add: aggregate_loop_def agg_init_def paths_for_def)
next
  case (snoc r rs)
  obtain s c where st: "aggregate_loop rs = (s, c)" by (cases "aggregate_loop rs")
  from snoc [of h] st
  have sh: "s h = (if length (paths_for h rs) = 1 then Some (paths_for h rs) else None)"
    and ch: "c h = (if 2 \<le> length (paths_for h rs) then Some (paths_for h rs) else None)"
    by simp_all
  from snoc [of "Hash r"] st
  have sr: "s (Hash r) = (if length (paths_for (Hash r) rs) = 1 then Some (paths_for (Hash r) rs) else None)"
    and cr: "c (Hash r) = (if 2 \<le> length (paths_for (Hash r) rs) then Some (paths_for (Hash r) rs) else None)"
    by simp_all
  show ?case
  proof (cases "Hash r = h")
    case True
    with sh ch st show ?thesis
      by (auto simp: aggregate_loop_snoc aggregate_step_def Let_def paths_for_snoc
          split: option.splits if_splits intro: no_paths)
  next
    case False
    with sh ch sr cr st show ?thesis
      by (auto simp: aggregate_loop_snoc aggregate_step_def Let_def paths_for_snoc
          split: option.splits if_splits)
  qed
qed

lemma collisions_of_char:
  "collisions_of rs h = (if 2 \<le> length (paths_for h rs) then Some (paths_for h rs) else None)"
  by (simp add: collisions_of_def aggregateHashes_table aggregate_loop_char)

lemma mset_paths_for:
  "mset rs = mset rs' \<Longrightarrow> mset (paths_for h rs) = mset (paths_for h rs')"
  unfolding paths_for_def by (metis mset_filter mset_map)

section \<open>Counting the replies\<close>

lemma paths_in_buckets_new:
  assumes "finite (dom c)" "c h = None"
  shows "paths_in_buckets (c(h \<mapsto> v)) = paths_in_buckets c + length v"
proof -
  from assms have nin: "h \<notin> dom c" by (simp add: domIff)
  have d: "dom (c(h \<mapsto> v)) = insert h (dom c)" by simp
  have "(\<Sum>k \<in> insert h (dom c). length (the ((c(h \<mapsto> v)) k))) =
        length (the ((c(h \<mapsto> v)) h)) + (\<Sum>k \<in> dom c. length (the ((c(h \<mapsto> v)) k)))"
    using assms(1) nin by (rule sum.insert)
  moreover have "(\<Sum>k \<in> dom c. length (the ((c(h \<mapsto> v)) k))) = (\<Sum>k \<in> dom c. length (the (c k)))"
    using nin by (intro sum.cong) auto
  moreover have "length (the ((c(h \<mapsto> v)) h)) = length v" by simp
  ultimately show ?thesis
    unfolding paths_in_buckets_def d by (simp only: add.commute)
qed

lemma paths_in_buckets_old:
  assumes "finite (dom c)" "c h = Some b"
  shows "paths_in_buckets (c(h \<mapsto> v)) + length b = paths_in_buckets c + length v"
proof -
  from assms have hin: "h \<in> dom c" by (simp add: domIff)
  then have d: "dom (c(h \<mapsto> v)) = dom c" by auto
  have new: "paths_in_buckets (c(h \<mapsto> v)) =
        length v + (\<Sum>k \<in> dom c - {h}. length (the ((c(h \<mapsto> v)) k)))"
    unfolding paths_in_buckets_def d using assms(1) hin
    by (simp add: sum.remove [of "dom c" h])
  have old: "paths_in_buckets c = length b + (\<Sum>k \<in> dom c - {h}. length (the (c k)))"
    unfolding paths_in_buckets_def using assms hin
    by (simp add: sum.remove [of "dom c" h])
  have "(\<Sum>k \<in> dom c - {h}. length (the ((c(h \<mapsto> v)) k))) =
        (\<Sum>k \<in> dom c - {h}. length (the (c k)))"
    by (intro sum.cong) auto
  with new old show ?thesis by simp
qed

lemma agg_count_step:
  assumes inv: "agg_inv st" and cnt: "agg_count st n"
  shows "agg_count (aggregate_step st r) (Suc n)"
proof -
  obtain s c where st: "st = (s, c)" by (cases st)
  from inv st have s1: "singles_one s" by (simp add: agg_inv_def)
  from cnt st have fs: "finite (dom s)" and fc: "finite (dom c)"
    and n: "card (dom s) + paths_in_buckets c = n"
    by (simp_all add: agg_count_def len_map_def)
  show ?thesis
  proof (cases "c (Hash r)")
    case (Some bucket)
    have "paths_in_buckets (c(Hash r \<mapsto> bucket @ [Pathname r])) = Suc (paths_in_buckets c)"
      using paths_in_buckets_old [OF fc Some, of "bucket @ [Pathname r]"] by simp
    with Some st fs fc n show ?thesis
      by (simp add: aggregate_step_def agg_count_def len_map_def)
  next
    case cNone: None
    show ?thesis
    proof (cases "s (Hash r)")
      case (Some single)
      with s1 have len: "length single = 1" by (simp add: singles_one_def)
      from Some have hin: "Hash r \<in> dom s" by (simp add: domIff)
      have ds: "dom (s(Hash r := None)) = dom s - {Hash r}" by auto
      from fs hin have cs: "Suc (card (dom s - {Hash r})) = card (dom s)"
        by (rule card_Suc_Diff1)
      have pb: "paths_in_buckets (c(Hash r \<mapsto> single @ [Pathname r])) = paths_in_buckets c + 2"
        using paths_in_buckets_new [OF fc cNone, of "single @ [Pathname r]"] len by simp
      have "card (dom s - {Hash r}) + (paths_in_buckets c + 2) = Suc n"
        using cs n by simp
      with Some cNone st fs fc pb ds show ?thesis
        by (simp add: aggregate_step_def agg_count_def len_map_def)
    next
      case None
      then have "Hash r \<notin> dom s" by (simp add: domIff)
      with fs have "card (dom (s(Hash r \<mapsto> [Pathname r]))) = Suc (card (dom s))"
        by simp
      with None cNone st fs fc n show ?thesis
        by (simp add: aggregate_step_def agg_count_def len_map_def)
    qed
  qed
qed

lemma agg_count_loop: "agg_count (aggregate_loop rs) (length rs)"
proof (induction rs rule: rev_induct)
  case Nil
  show ?case
    by (simp add: aggregate_loop_def agg_init_def agg_count_def len_map_def paths_in_buckets_def)
next
  case (snoc r rs)
  from agg_count_step [OF agg_inv_loop snoc] show ?case
    by (simp add: aggregate_loop_snoc)
qed

text \<open>
  What the log line reports, for any value of \<open>hashingFiles\<close>: the figures of the table
  plus the number of requests that produced no reply.
\<close>

lemma aggregateHashes_report:
  assumes "aggregateHashes nHashing replies = (table, rep)"
  shows "Collisions rep = of_nat (paths_in_buckets table) + (nHashing - of_nat (length replies)) \<and>
         Dupes rep = of_nat (paths_in_buckets table) - of_nat (len_map table) +
           (nHashing - of_nat (length replies))"
proof -
  obtain s c where st: "aggregate_loop replies = (s, c)" by (cases "aggregate_loop replies")
  from agg_count_loop [of replies] st
  have "len_map s + paths_in_buckets c = length replies"
    by (simp add: agg_count_def)
  then have "(of_nat (length replies) :: int64) = of_nat (len_map s) + of_nat (paths_in_buckets c)"
    by (simp only: of_nat_add [symmetric])
  moreover from assms st have "table = c" "Collisions rep = nHashing - of_nat (len_map s)"
    "Dupes rep = nHashing - of_nat (len_map s) - of_nat (len_map c)"
    by (auto simp: aggregateHashes_def Let_def)
  ultimately show ?thesis by simp
qed

section \<open>Claims about the aggregator\<close>

text \<open>
  C1. Whatever finite sequence of replies the aggregator consumes, no key of the table
  it returns is bound to fewer than two paths, and the same holds of the collisions
  dictionary after every iteration of the loop (the state after \<open>k\<close> replies).
\<close>

theorem C1_no_bucket_below_two:
  "(fst (aggregateHashes n replies) h = Some ps \<longrightarrow> 2 \<le> length ps) \<and>
   (snd (aggregate_loop (take k replies)) h = Some ps \<longrightarrow> 2 \<le> length ps)"
proof -
  have "buckets_ge2 (snd (aggregate_loop rs))" for rs
    using agg_inv_loop [of rs] by (simp add: agg_inv_def)
  then show ?thesis
    unfolding buckets_ge2_def aggregateHashes_table by blast
qed

theorem C1_no_bucket_below_two_witness:
  "fst (aggregateHashes 3
      [\<lparr>Pathname = ''/a'', Size = 300, Hash = ''h1''\<rparr>,
       \<lparr>Pathname = ''/b'', Size = 300, Hash = ''h2''\<rparr>,
       \<lparr>Pathname = ''/c'', Size = 300, Hash = ''h1''\<rparr>]) ''h1'' = Some [''/a'', ''/c'']
   \<and> snd (aggregate_loop (take 3
      [\<lparr>Pathname = ''/a'', Size = 300, Hash = ''h1''\<rparr>,
       \<lparr>Pathname = ''/b'', Size = 300, Hash = ''h2''\<rparr>,
       \<lparr>Pathname = ''/c'', Size = 300, Hash = ''h1''\<rparr>])) ''h1'' = Some [''/a'', ''/c'']
   \<and> 2 \<le> length [''/a'', ''/c'']"
  using C1_no_bucket_below_two [of 3
      "[\<lparr>Pathname = ''/a'', Size = 300, Hash = ''h1''\<rparr>,
       \<lparr>Pathname = ''/b'', Size = 300, Hash = ''h2''\<rparr>,
       \<lparr>Pathname = ''/c'', Size = 300, Hash = ''h1''\<rparr>]" "''h1''" "[''/a'', ''/c'']" 3]
  by (simp add: aggregateHashes_def aggregate_loop_def aggregate_step_def agg_init_def Let_def)

text \<open>
  C2. In every state the loop reaches, one iteration does exactly one of three things.
  If the reply's hash has a bucket in \<open>collisions\<close>, the path is appended to it. Otherwise,
  if the hash is a key of \<open>singles\<close>, the path stored there and the new path become a
  bucket of two paths in \<open>collisions\<close>, and the hash leaves \<open>singles\<close>. Otherwise the
  path becomes the only entry of the hash in \<open>singles\<close>.
\<close>

theorem C2_three_case_rule:
  assumes "st = aggregate_loop (take k replies)"
  shows
  "(snd st (Hash response) = Some bucket \<longrightarrow>
      aggregate_step st response =
        (fst st, (snd st)(Hash response \<mapsto> bucket @ [Pathname response]))) \<and>
   (snd st (Hash response) = None \<and> fst st (Hash response) = Some single \<longrightarrow>
      (\<exists>p. single = [p] \<and>
        aggregate_step st response =
          ((fst st)(Hash response := None),
           (snd st)(Hash response \<mapsto> [p, Pathname response])))) \<and>
   (snd st (Hash response) = None \<and> fst st (Hash response) = None \<longrightarrow>
      aggregate_step st response =
        ((fst st)(Hash response \<mapsto> [Pathname response]), snd st))"
proof -
  have inv: "singles_one (fst st)"
    using agg_inv_loop [of "take k replies"] assms by (simp add: agg_inv_def)
  have one: "\<exists>p. single = [p]" if "fst st (Hash response) = Some single"
  proof -
    from inv that have "length single = 1" by (simp add: singles_one_def)
    then show ?thesis by (cases single) auto
  qed
  show ?thesis
    using one by (auto simp: aggregate_step_def Let_def)
qed

theorem C2_three_case_rule_witness:
  "aggregate_step (aggregate_loop (take 0 [\<lparr>Pathname = ''/a'', Size = 300, Hash = ''h1''\<rparr>]))
      \<lparr>Pathname = ''/a'', Size = 300, Hash = ''h1''\<rparr>
     = (Map.empty(''h1'' \<mapsto> [''/a'']), Map.empty)
   \<and> aggregate_step (aggregate_loop (take 1 [\<lparr>Pathname = ''/a'', Size = 300, Hash = ''h1''\<rparr>]))
      \<lparr>Pathname = ''/c'', Size = 300, Hash = ''h1''\<rparr>
     = ((Map.empty(''h1'' \<mapsto> [''/a'']))(''h1'' := None), Map.empty(''h1'' \<mapsto> [''/a'', ''/c'']))
   \<and> aggregate_step (aggregate_loop (take 2
        [\<lparr>Pathname = ''/a'', Size = 300, Hash = ''h1''\<rparr>,
         \<lparr>Pathname = ''/c'', Size = 300, Hash = ''h1''\<rparr>]))
      \<lparr>Pathname = ''/d'', Size = 300, Hash = ''h1''\<rparr>
     = (Map.empty, (Map.empty(''h1'' \<mapsto> [''/a'', ''/c'']))(''h1'' \<mapsto> [''/a'', ''/c''] @ [''/d'']))"
proof -
  let ?a = "\<lparr>Pathname = ''/a'', Size = 300, Hash = ''h1''\<rparr>"
  let ?c = "\<lparr>Pathname = ''/c'', Size = 300, Hash = ''h1''\<rparr>"
  let ?d = "\<lparr>Pathname = ''/d'', Size = 300, Hash = ''h1''\<rparr>"
  have third: "aggregate_step (aggregate_loop (take 0 [?a])) ?a = (Map.empty(''h1'' \<mapsto> [''/a'']), Map.empty)"
    using C2_three_case_rule [where k = 0 and replies = "[?a]" and response = ?a, OF refl]
    by (simp add: aggregate_loop_def agg_init_def)
  have second: "aggregate_step (aggregate_loop (take 1 [?a])) ?c
      = ((Map.empty(''h1'' \<mapsto> [''/a'']))(''h1'' := None), Map.empty(''h1'' \<mapsto> [''/a'', ''/c'']))"
    using C2_three_case_rule [where k = 1 and replies = "[?a]" and response = ?c
        and single = "[''/a'']", OF refl]
    by (simp add: aggregate_loop_def aggregate_step_def agg_init_def Let_def)
  have first: "aggregate_step (aggregate_loop (take 2 [?a, ?c])) ?d
      = (Map.empty, (Map.empty(''h1'' \<mapsto> [''/a'', ''/c'']))(''h1'' \<mapsto> [''/a'', ''/c''] @ [''/d'']))"
    using C2_three_case_rule [where k = 2 and replies = "[?a, ?c]" and response = ?d
        and bucket = "[''/a'', ''/c'']", OF refl]
    by (simp add: aggregate_loop_def aggregate_step_def agg_init_def Let_def)
  from third second first show ?thesis by blast
qed

text \<open>
  C3. Aggregating two permutations of the same replies gives tables with the same keys
  and, under each key, the same paths (as a set, and even as a multiset); only the order
  inside a bucket may differ.
\<close>

theorem C3_arrival_order_irrelevant:
  assumes "mset replies = mset replies'"
  shows "dom (collisions_of replies) = dom (collisions_of replies') \<and>
         (collisions_of replies h = Some ps \<and> collisions_of replies' h = Some ps' \<longrightarrow>
            set ps = set ps' \<and> mset ps = mset ps')"
proof -
  have m: "mset (paths_for k replies) = mset (paths_for k replies')" for k
    using assms by (rule mset_paths_for)
  have l: "length (paths_for k replies) = length (paths_for k replies')" for k
    using m [of k] by (metis size_mset)
  have "dom (collisions_of replies) = dom (collisions_of replies')"
    by (auto simp: collisions_of_char l dom_def)
  moreover have "set ps = set ps' \<and> mset ps = mset ps'"
    if "collisions_of replies h = Some ps" "collisions_of replies' h = Some ps'"
  proof -
    from that have "ps = paths_for h replies" "ps' = paths_for h replies'"
      by (auto simp: collisions_of_char split: if_splits)
    with m [of h] show ?thesis by (metis set_mset_mset)
  qed
  ultimately show ?thesis by blast
qed

theorem C3_arrival_order_irrelevant_witness:
  "mset [\<lparr>Pathname = ''/a'', Size = 300, Hash = ''h1''\<rparr>,
         \<lparr>Pathname = ''/b'', Size = 300, Hash = ''h2''\<rparr>,
         \<lparr>Pathname = ''/c'', Size = 300, Hash = ''h1''\<rparr>]
   = mset [\<lparr>Pathname = ''/c'', Size = 300, Hash = ''h1''\<rparr>,
           \<lparr>Pathname = ''/a'', Size = 300, Hash = ''h1''\<rparr>,
           \<lparr>Pathname = ''/b'', Size = 300, Hash = ''h2''\<rparr>]
   \<and> collisions_of [\<lparr>Pathname = ''/a'', Size = 300, Hash = ''h1''\<rparr>,
         \<lparr>Pathname = ''/b'', Size = 300, Hash = ''h2''\<rparr>,
         \<lparr>Pathname = ''/c'', Size = 300, Hash = ''h1''\<rparr>] ''h1'' = Some [''/a'', ''/c'']
   \<and> collisions_of [\<lparr>Pathname = ''/c'', Size = 300, Hash = ''h1''\<rparr>,
           \<lparr>Pathname = ''/a'', Size = 300, Hash = ''h1''\<rparr>,
           \<lparr>Pathname = ''/b'', Size = 300, Hash = ''h2''\<rparr>] ''h1'' = Some [''/c'', ''/a'']
   \<and> set [''/a'', ''/c''] = set [''/c'', ''/a'']"
proof -
  let ?a = "\<lparr>Pathname = ''/a'', Size = 300, Hash = ''h1''\<rparr>"
  let ?b = "\<lparr>Pathname = ''/b'', Size = 300, Hash = ''h2''\<rparr>"
  let ?c = "\<lparr>Pathname = ''/c'', Size = 300, Hash = ''h1''\<rparr>"
  have perm: "mset [?a, ?b, ?c] = mset [?c, ?a, ?b]"
    by (simp add: add.commute)
  have t1: "collisions_of [?a, ?b, ?c] ''h1'' = Some [''/a'', ''/c'']"
    by (simp add: collisions_of_def aggregateHashes_def aggregate_loop_def aggregate_step_def
        agg_init_def Let_def)
  have t2: "collisions_of [?c, ?a, ?b] ''h1'' = Some [''/c'', ''/a'']"
    by (simp add: collisions_of_def aggregateHashes_def aggregate_loop_def aggregate_step_def
        agg_init_def Let_def)
  from C3_arrival_order_irrelevant [OF perm, of "''h1''" "[''/a'', ''/c'']" "[''/c'', ''/a'']"] t1 t2
  have "set [''/a'', ''/c''] = set [''/c'', ''/a'']" by blast
  with perm t1 t2 show ?thesis by blast
qed

text \<open>
  C10. After every iteration of the loop no hash is a key of both dictionaries, and
  every entry of \<open>singles\<close> holds exactly one path.
\<close>

theorem C10_singles_collisions_disjoint:
  "dom (fst (aggregate_loop (take k replies))) \<inter> dom (snd (aggregate_loop (take k replies))) = {} \<and>
   (fst (aggregate_loop (take k replies)) h = Some ps \<longrightarrow> length ps = 1)"
proof -
  have "agg_inv (aggregate_loop (take k replies))"
    by (rule agg_inv_loop)
  then show ?thesis
    unfolding agg_inv_def singles_one_def by blast
qed

theorem C10_singles_collisions_disjoint_witness:
  "fst (aggregate_loop (take 2
      [\<lparr>Pathname = ''/a'', Size = 300, Hash = ''h1''\<rparr>,
       \<lparr>Pathname = ''/b'', Size = 300, Hash = ''h2''\<rparr>,
       \<lparr>Pathname = ''/c'', Size = 300, Hash = ''h1''\<rparr>])) ''h2'' = Some [''/b'']
   \<and> length [''/b''] = 1"
  using C10_singles_collisions_disjoint [of 2
      "[\<lparr>Pathname = ''/a'', Size = 300, Hash = ''h1''\<rparr>,
       \<lparr>Pathname = ''/b'', Size = 300, Hash = ''h2''\<rparr>,
       \<lparr>Pathname = ''/c'', Size = 300, Hash = ''h1''\<rparr>]" "''h2''" "[''/b'']"]
  by (simp add: aggregate_loop_def aggregate_step_def agg_init_def Let_def)

section \<open>Formatting: decimal and hexadecimal\<close>

lemma digit_cases:
  fixes u :: nat
  assumes "u < 10"
  shows "u = 0 \<or> u = 1 \<or> u = 2 \<or> u = 3 \<or> u = 4 \<or> u = 5 \<or> u = 6 \<or> u = 7 \<or> u = 8 \<or> u = 9"
  using assms by arith

lemma digit_in: "u < 10 \<Longrightarrow> digit u \<in> set ''0123456789''"
  using digit_cases [of u] by (auto simp: digit_def)

lemma digit_value: "u < 10 \<Longrightarrow> (of_char (digit u) :: nat) = 48 + u"
  using digit_cases [of u] by (auto simp: digit_def)

lemma digits_set: "set (digits u) \<subseteq> set ''0123456789''"
proof (induction u rule: digits.induct)
  case (1 u)
  show ?case
  proof (cases "u < 10")
    case True
    then show ?thesis using digit_in [of u] by (simp add: digits.simps [of u])
  next
    case False
    then show ?thesis
      using 1 digit_in [of "u mod 10"] by (simp add: digits.simps [of u])
  qed
qed

lemma digits_length: "0 < k \<Longrightarrow> u < 10 ^ k \<Longrightarrow> length (digits u) \<le> k"
proof (induction u arbitrary: k rule: digits.induct)
  case (1 u)
  show ?case
  proof (cases "u < 10")
    case True
    with 1 show ?thesis by (simp add: digits.simps [of u])
  next
    case False
    with "1.prems" obtain j where k: "k = Suc j" by (cases k) auto
    with False "1.prems" have "0 < j" by (cases j) auto
    moreover from "1.prems" k have "u div 10 < 10 ^ j"
      by (simp add: less_mult_imp_div_less mult.commute)
    ultimately have "length (digits (u div 10)) \<le> j"
      using "1.IH" False by simp
    with False k show ?thesis by (simp add: digits.simps [of u])
  qed
qed

lemma decimal_value_snoc: "decimal_value (s @ [c]) = 10 * decimal_value s + (of_char c - 48)"
  by (simp add: decimal_value_def)

lemma decimal_value_digits: "decimal_value (digits u) = u"
proof (induction u rule: digits.induct)
  case (1 u)
  show ?case
  proof (cases "u < 10")
    case True
    then show ?thesis
      by (simp add: digits.simps [of u] decimal_value_def digit_value)
  next
    case False
    then show ?thesis
      using 1 by (simp add: digits.simps [of u] decimal_value_snoc digit_value)
  qed
qed

lemma decimal_value_zeros: "decimal_value (replicate n CHR ''0'' @ s) = decimal_value s"
proof -
  have "foldl (\<lambda>a c. 10 * a + (of_char c - 48)) 0 (replicate n CHR ''0'') = (0::nat)"
    by (induction n) simp_all
  then show ?thesis by (simp add: decimal_value_def)
qed

lemma fmt_016d_sixteen:
  assumes "0 \<le> n" "n < 10 ^ 16"
  shows "length (fmt_016d n) = 16 \<and> set (fmt_016d n) \<subseteq> set ''0123456789'' \<and>
         int (decimal_value (fmt_016d n)) = n"
proof -
  from assms have "nat n < 10 ^ 16" by (simp add: nat_less_iff)
  then have len: "length (digits (nat n)) \<le> 16"
    by (intro digits_length) simp_all
  have f: "fmt_016d n = replicate (16 - length (digits (nat n))) CHR ''0'' @ digits (nat n)"
    using assms by (simp add: fmt_016d_def pad0_def)
  have "length (fmt_016d n) = 16" using len by (simp add: f)
  moreover have "set (fmt_016d n) \<subseteq> set ''0123456789''"
    using digits_set [of "nat n"] by (auto simp: f)
  moreover have "int (decimal_value (fmt_016d n)) = n"
    using assms by (simp add: f decimal_value_zeros decimal_value_digits)
  ultimately show ?thesis by blast
qed

lemma ReplaceAll_backslash_props:
  "length (ReplaceAll_backslash s) = length s \<and> CHR 0x5C \<notin> set (ReplaceAll_backslash s)"
  by (auto simp: ReplaceAll_backslash_def)

lemma low_nibble: "unat ((v :: byte) AND 0x0f) = unat v mod 16"
proof -
  have "(0x0f :: byte) = mask 4" by (simp add: mask_eq_exp_minus_1)
  then have "v AND 0x0f = take_bit 4 v"
    by (simp only: take_bit_eq_mask)
  moreover have "unat (take_bit 4 v) = take_bit 4 (unat v)"
    by (rule unsigned_take_bit_eq)
  ultimately show ?thesis by (simp only: take_bit_eq_mod) simp
qed

lemma high_nibble: "unat (drop_bit 4 (v :: byte)) = unat v div 16"
proof -
  have "unat (drop_bit 4 v) = drop_bit 4 (unat v)"
    by (rule unat_drop_bit_eq)
  then show ?thesis by (simp only: drop_bit_eq_div) simp
qed

lemma high_nibble_less: "unat (drop_bit 4 (v :: byte)) < 16"
proof -
  have "unat v < 256" using unsigned_less [of v, where ?'a = nat] by simp
  then show ?thesis by (simp add: high_nibble less_mult_imp_div_less)
qed

lemma low_nibble_less: "unat ((v :: byte) AND 0x0f) < 16"
  by (simp add: low_nibble)

lemma nibble_cases:
  fixes n :: nat
  assumes "n < 16"
  shows "n = 0 \<or> n = 1 \<or> n = 2 \<or> n = 3 \<or> n = 4 \<or> n = 5 \<or> n = 6 \<or> n = 7 \<or>
         n = 8 \<or> n = 9 \<or> n = 10 \<or> n = 11 \<or> n = 12 \<or> n = 13 \<or> n = 14 \<or> n = 15"
  using assms by arith

lemma hextable_lowercase: "n < 16 \<Longrightarrow> hextable ! n \<in> set ''0123456789abcdef''"
  using nth_mem [of n hextable] by (simp add: hextable_def)

lemma nibble_value_hextable: "n < 16 \<Longrightarrow> nibble_value (hextable ! n) = n"
  using nibble_cases [of n] by (auto simp: hextable_def nibble_value_def)

lemma EncodeToString_lowercase:
  "set (EncodeToString bs) \<subseteq> set ''0123456789abcdef'' \<and> length (EncodeToString bs) = 2 * length bs"
proof (induction bs)
  case Nil
  show ?case by simp
next
  case (Cons v bs)
  with hextable_lowercase [OF high_nibble_less [of v]] hextable_lowercase [OF low_nibble_less [of v]]
  show ?case by simp
qed

lemma DecodeString_EncodeToString: "DecodeString (EncodeToString bs) = bs"
proof (induction bs)
  case Nil
  show ?case by simp
next
  case (Cons v bs)
  have h: "nibble_value (hextable ! unat (drop_bit 4 v)) = unat v div 16"
    using nibble_value_hextable [OF high_nibble_less [of v]] by (simp only: high_nibble)
  have l: "nibble_value (hextable ! unat (v AND 0x0f)) = unat v mod 16"
    using nibble_value_hextable [OF low_nibble_less [of v]] by (simp only: low_nibble)
  have "16 * nibble_value (hextable ! unat (drop_bit 4 v)) + nibble_value (hextable ! unat (v AND 0x0f))
        = unat v"
    unfolding h l by simp
  then have "(of_nat (16 * nibble_value (hextable ! unat (drop_bit 4 v)) +
        nibble_value (hextable ! unat (v AND 0x0f))) :: byte) = v"
    by simp
  with Cons show ?case by (simp only: EncodeToString.simps DecodeString.simps)
qed

lemma digits_not_Nil: "digits u \<noteq> []"
  by (simp add: digits.simps [of u])

lemma digit_not_zero: "0 < u \<Longrightarrow> u < 10 \<Longrightarrow> digit u \<noteq> CHR ''0''"
  using digit_cases [of u] by (auto simp: digit_def)

lemma digits_hd: "0 < u \<Longrightarrow> hd (digits u) \<noteq> CHR ''0''"
proof (induction u rule: digits.induct)
  case (1 u)
  show ?case
  proof (cases "u < 10")
    case True
    with "1.prems" show ?thesis
      by (simp add: digits.simps [of u] digit_not_zero)
  next
    case False
    then have "0 < u div 10" by (simp add: div_greater_zero_iff)
    with "1.IH" False have "hd (digits (u div 10)) \<noteq> CHR ''0''" by simp
    with False show ?thesis
      by (simp add: digits.simps [of u] digits_not_Nil)
  qed
qed

lemma digits_longer: "0 < k \<Longrightarrow> 10 ^ k \<le> u \<Longrightarrow> k < length (digits u)"
proof (induction u arbitrary: k rule: digits.induct)
  case (1 u)
  from "1.prems" have big: "\<not> u < 10"
  proof -
    from "1.prems"(1) have "(10::nat) ^ 1 \<le> 10 ^ k"
      by (intro power_increasing) simp_all
    with "1.prems"(2) show ?thesis by simp
  qed
  from "1.prems"(1) obtain j where k: "k = Suc j" by (cases k) auto
  show ?case
  proof (cases j)
    case 0
    with k big show ?thesis
      using digits_not_Nil [of "u div 10"]
      by (simp add: digits.simps [of u] Suc_le_eq)
  next
    case (Suc i)
    from "1.prems"(2) k have "10 ^ j \<le> u div 10"
      by (simp add: less_eq_div_iff_mult_less_eq mult.commute)
    with "1.IH" [of j] big Suc have "j < length (digits (u div 10))" by simp
    with big k show ?thesis by (simp add: digits.simps [of u])
  qed
qed

lemma pad0_is_padded_decimal:
  assumes "0 < w"
  shows "is_padded_decimal w u (pad0 w (digits u))"
proof -
  have "set (pad0 w (digits u)) \<subseteq> set ''0123456789''"
    using digits_set [of u] by (auto simp: pad0_def)
  moreover have "decimal_value (pad0 w (digits u)) = u"
    by (simp add: pad0_def decimal_value_zeros decimal_value_digits)
  moreover have "w \<le> length (pad0 w (digits u))"
    by (simp add: pad0_def)
  moreover have "hd (pad0 w (digits u)) \<noteq> CHR ''0''" if "w < length (pad0 w (digits u))"
  proof -
    from that have long: "w < length (digits u)" by (simp add: pad0_def split: if_splits)
    then have p: "pad0 w (digits u) = digits u" by (simp add: pad0_def)
    have "0 < u"
    proof (rule ccontr)
      assume "\<not> 0 < u"
      then have "length (digits u) = 1" by (simp add: digits.simps [of 0])
      with long assms show False by simp
    qed
    with p show ?thesis by (simp add: digits_hd)
  qed
  ultimately show ?thesis by (simp add: is_padded_decimal_def)
qed

lemma fmt_016d_is_size_text: "is_size_text n (fmt_016d n)"
  by (simp add: is_size_text_def fmt_016d_def pad0_is_padded_decimal)

lemma fmt_016d_length:
  "16 \<le> length (fmt_016d n) \<and>
   (0 \<le> n \<and> n < 10 ^ 16 \<longrightarrow> length (fmt_016d n) = 16) \<and>
   (10 ^ 16 \<le> n \<longrightarrow> 16 < length (fmt_016d n))"
proof -
  have a: "16 \<le> length (fmt_016d n)"
    by (simp add: fmt_016d_def pad0_def) arith
  have b: "length (fmt_016d n) = 16" if "0 \<le> n" "n < 10 ^ 16"
    using fmt_016d_sixteen [OF that] by simp
  have c: "16 < length (fmt_016d n)" if "10 ^ 16 \<le> n"
  proof -
    from that have "(10::nat) ^ 16 \<le> nat n" by (simp add: le_nat_iff)
    then have "16 < length (digits (nat n))" by (intro digits_longer) simp_all
    with that show ?thesis by (simp add: fmt_016d_def pad0_def)
  qed
  from a b c show ?thesis by blast
qed

lemma EncodeToString_is_lower_hex: "is_lower_hex d (EncodeToString d)"
  using EncodeToString_lowercase [of d]
  by (simp add: is_lower_hex_def DecodeString_EncodeToString)

section \<open>Claims about the worker\<close>

lemma hashRequest_eq:
  "hashRequest thorough sha512_sum md5_sum fs t request =
     (let pathname = ReplaceAll_backslash (Pathname request) in
      case fs t pathname of
        Contents primary \<Rightarrow>
          if thorough then
            (case fs (Suc t) pathname of
               Contents secondary \<Rightarrow>
                 (Some (request\<lparr>Pathname := pathname,
                    Hash := fmt_016d (sint (Size request)) @ ''.'' @
                      EncodeToString (sha512_sum primary) @ ''.'' @
                      EncodeToString (md5_sum secondary)\<rparr>), Suc (Suc t))
             | _ \<Rightarrow> (None, Suc (Suc t)))
          else
            (Some (request\<lparr>Pathname := pathname,
               Hash := fmt_016d (sint (Size request)) @ ''.'' @
                 EncodeToString (sha512_sum primary)\<rparr>), Suc t)
      | _ \<Rightarrow> (None, Suc t))"
  by (simp add: hashRequest_def hashData_def Sprintf_hash_def Let_def split: read_outcome.splits)

lemma replicate_13: "replicate 13 c = [c, c, c, c, c, c, c, c, c, c, c, c, c]"
  by (simp add: eval_nat_numeral)

lemma fmt_016d_300: "fmt_016d 300 = ''0000000000000300''"
  by (simp add: fmt_016d_def pad0_def digits.simps digit_def replicate_13)

text \<open>
  C4, as amended. When \<open>hashRequest\<close> returns a reply, the worker sends it, and the reply
  is the request with: the path with every backslash replaced by a forward slash; the
  size unchanged; and as hash the size text, a dot, the primary digest in lowercase
  hexadecimal and, exactly in thorough mode, a further dot and the secondary digest in
  lowercase hexadecimal, each digest being that of what the read at that moment found
  in the file. The size text is the size in decimal, padded with zeros on the left to
  a width of at least 16: exactly 16 digits for a size from 0 up to \<open>10^16 - 1\<close>, all
  the digits of a larger size, and a minus sign followed by at least 15 digits for a
  negative one.
\<close>

theorem C4_reply_fields:
  assumes "hashRequest thorough sha512_sum md5_sum fs t request = (Some reply, t')"
  shows
  "\<exists>primary size_text hex1.
     hashingWorker thorough sha512_sum md5_sum fs t (request # requests) =
       reply # hashingWorker thorough sha512_sum md5_sum fs t' requests \<and>
     fs t (Pathname reply) = Contents primary \<and>
     Pathname reply = map (\<lambda>c. if c = CHR 0x5C then CHR ''/'' else c) (Pathname request) \<and>
     Size reply = Size request \<and>
     is_size_text (sint (Size request)) size_text \<and>
     (0 \<le> sint (Size request) \<and> sint (Size request) < 10 ^ 16 \<longrightarrow> length size_text = 16) \<and>
     (10 ^ 16 \<le> sint (Size request) \<longrightarrow> 16 < length size_text) \<and>
     is_lower_hex (sha512_sum primary) hex1 \<and>
     (if thorough
      then \<exists>secondary hex2. fs (Suc t) (Pathname reply) = Contents secondary \<and>
             is_lower_hex (md5_sum secondary) hex2 \<and>
             Hash reply = size_text @ ''.'' @ hex1 @ ''.'' @ hex2 \<and> t' = Suc (Suc t)
      else Hash reply = size_text @ ''.'' @ hex1 \<and> t' = Suc t)"
proof -
  let ?p = "ReplaceAll_backslash (Pathname request)"
  let ?sz = "fmt_016d (sint (Size request))"
  from assms obtain primary where p: "fs t ?p = Contents primary"
    by (auto simp: hashRequest_eq Let_def split: read_outcome.splits if_splits)
  let ?h1 = "EncodeToString (sha512_sum primary)"
  have push: "hashingWorker thorough sha512_sum md5_sum fs t (request # requests) =
       reply # hashingWorker thorough sha512_sum md5_sum fs t' requests"
    using assms by simp
  have tail: "if thorough
      then \<exists>secondary hex2. fs (Suc t) (Pathname reply) = Contents secondary \<and>
             is_lower_hex (md5_sum secondary) hex2 \<and>
             Hash reply = ?sz @ ''.'' @ ?h1 @ ''.'' @ hex2 \<and> t' = Suc (Suc t)
      else Hash reply = ?sz @ ''.'' @ ?h1 \<and> t' = Suc t"
    and path: "Pathname reply = ?p" and size: "Size reply = Size request"
  proof -
    show "if thorough
      then \<exists>secondary hex2. fs (Suc t) (Pathname reply) = Contents secondary \<and>
             is_lower_hex (md5_sum secondary) hex2 \<and>
             Hash reply = ?sz @ ''.'' @ ?h1 @ ''.'' @ hex2 \<and> t' = Suc (Suc t)
      else Hash reply = ?sz @ ''.'' @ ?h1 \<and> t' = Suc t"
    proof (cases thorough)
      case True
      with assms p obtain secondary where s: "fs (Suc t) ?p = Contents secondary"
        by (auto simp: hashRequest_eq Let_def split: read_outcome.splits)
      from assms p s True have "reply = request\<lparr>Pathname := ?p,
          Hash := ?sz @ ''.'' @ ?h1 @ ''.'' @ EncodeToString (md5_sum secondary)\<rparr>"
        and "t' = Suc (Suc t)"
        by (simp_all add: hashRequest_eq Let_def)
      with s True EncodeToString_is_lower_hex [of "md5_sum secondary"] show ?thesis
        by auto
    next
      case False
      with assms p have "reply = request\<lparr>Pathname := ?p, Hash := ?sz @ ''.'' @ ?h1\<rparr>"
        and "t' = Suc t"
        by (simp_all add: hashRequest_eq Let_def)
      with False show ?thesis by simp
    qed
    from assms p show "Pathname reply = ?p"
      by (auto simp: hashRequest_eq Let_def split: read_outcome.splits if_splits)
    from assms p show "Size reply = Size request"
      by (auto simp: hashRequest_eq Let_def split: read_outcome.splits if_splits)
  qed
  from path p have rd: "fs t (Pathname reply) = Contents primary" by simp
  from path have pm: "Pathname reply =
      map (\<lambda>c. if c = CHR 0x5C then CHR ''/'' else c) (Pathname request)"
    by (simp add: ReplaceAll_backslash_def)
  from fmt_016d_length [of "sint (Size request)"]
  have l1: "0 \<le> sint (Size request) \<and> sint (Size request) < 10 ^ 16 \<longrightarrow> length ?sz = 16"
    and l2: "10 ^ 16 \<le> sint (Size request) \<longrightarrow> 16 < length ?sz"
    by blast+
  show ?thesis
    apply (rule exI [of _ primary])
    apply (rule exI [of _ ?sz])
    apply (rule exI [of _ ?h1])
    using push rd pm size fmt_016d_is_size_text [of "sint (Size request)"] l1 l2
      EncodeToString_is_lower_hex [of "sha512_sum primary"] tail
    apply (intro conjI)
            apply assumption+
    done
qed

theorem C4_reply_fields_witness:
  "hashRequest True (\<lambda>bs. bs) rev
     (\<lambda>t p. if p = ''C:/x'' then Contents [0xAB, 0x01] else OpenFails) 0
     \<lparr>Pathname = [CHR ''C'', CHR '':'', CHR 0x5C, CHR ''x''], Size = 300, Hash = ''''\<rparr>
   = (Some \<lparr>Pathname = ''C:/x'', Size = 300, Hash = ''0000000000000300.ab01.01ab''\<rparr>, 2) \<and>
   hashingWorker True (\<lambda>bs. bs) rev
     (\<lambda>t p. if p = ''C:/x'' then Contents [0xAB, 0x01] else OpenFails) 0
     [\<lparr>Pathname = [CHR ''C'', CHR '':'', CHR 0x5C, CHR ''x''], Size = 300, Hash = ''''\<rparr>]
   = [\<lparr>Pathname = ''C:/x'', Size = 300, Hash = ''0000000000000300.ab01.01ab''\<rparr>] \<and>
   0 \<le> sint (300 :: int64) \<and> sint (300 :: int64) < 10 ^ 16"
proof -
  let ?fs = "\<lambda>(t :: nat) p. if p = ''C:/x'' then Contents [0xAB, 0x01] else OpenFails"
  let ?req = "\<lparr>Pathname = [CHR ''C'', CHR '':'', CHR 0x5C, CHR ''x''], Size = 300, Hash = ''''\<rparr>"
  let ?rep = "\<lparr>Pathname = ''C:/x'', Size = 300, Hash = ''0000000000000300.ab01.01ab''\<rparr>"
  have run: "hashRequest True (\<lambda>bs. bs) rev ?fs 0 ?req = (Some ?rep, 2)"
    by (simp add: hashRequest_def hashData_def Sprintf_hash_def Let_def ReplaceAll_backslash_def
        fmt_016d_300 hextable_def)
  have size: "0 \<le> sint (300 :: int64) \<and> sint (300 :: int64) < 10 ^ 16"
    by simp
  from C4_reply_fields [OF run, of "[]"]
  have "hashingWorker True (\<lambda>bs. bs) rev ?fs 0 [?req] = [?rep]"
    by auto
  with run size show ?thesis by blast
qed

text \<open>
  C4, as stated, fails: for a file of \<open>10^16\<close> bytes the request succeeds and the size
  is written with 17 digits, not 16.
\<close>

theorem C4_counterexample:
  "hashRequest False (\<lambda>bs. bs) rev (\<lambda>t p. Contents [0xAB]) 0
     \<lparr>Pathname = ''/big'', Size = 10000000000000000, Hash = ''''\<rparr>
   = (Some \<lparr>Pathname = ''/big'', Size = 10000000000000000,
             Hash = ''10000000000000000.ab''\<rparr>, 1) \<and>
   length ''10000000000000000'' = 17"
  by (simp add: hashRequest_def hashData_def Sprintf_hash_def Let_def ReplaceAll_backslash_def
      fmt_016d_def pad0_def digits.simps digit_def hextable_def)

text \<open>
  C6. When the first read of a request fails, or in thorough mode the second, the
  worker gets no reply from \<open>hashRequest\<close> and sends none. No read is tried again: one
  read was made when the first fails, two when the second does. The worker goes on
  with the remaining requests, and the aggregation gets only their replies, so the
  file enters neither dictionary.
\<close>

theorem C6_failed_request_dropped:
  assumes fail:
    "fs t (ReplaceAll_backslash (Pathname request)) \<in> {OpenFails, CopyFails} \<or>
     thorough \<and> fs (Suc t) (ReplaceAll_backslash (Pathname request)) \<in> {OpenFails, CopyFails}"
    and reads:
    "t' = (if fs t (ReplaceAll_backslash (Pathname request)) \<in> {OpenFails, CopyFails}
           then Suc t else Suc (Suc t))"
  shows
  "hashRequest thorough sha512_sum md5_sum fs t request = (None, t') \<and>
   hashingWorker thorough sha512_sum md5_sum fs t (request # requests) =
     hashingWorker thorough sha512_sum md5_sum fs t' requests \<and>
   aggregate_loop (earlier @ hashingWorker thorough sha512_sum md5_sum fs t (request # requests)) =
     aggregate_loop (earlier @ hashingWorker thorough sha512_sum md5_sum fs t' requests)"
proof -
  have r: "hashRequest thorough sha512_sum md5_sum fs t request = (None, t')"
    using fail reads
    by (auto simp: hashRequest_eq Let_def split: read_outcome.splits)
  then have "hashingWorker thorough sha512_sum md5_sum fs t (request # requests) =
     hashingWorker thorough sha512_sum md5_sum fs t' requests"
    by simp
  with r show ?thesis by simp
qed

theorem C6_failed_request_dropped_witness:
  "hashRequest False (\<lambda>bs. bs) rev
     (\<lambda>t p. if p = ''/ok'' then Contents [0x0F] else OpenFails) 0
     \<lparr>Pathname = ''/bad'', Size = 300, Hash = ''''\<rparr> = (None, 1) \<and>
   hashingWorker False (\<lambda>bs. bs) rev
     (\<lambda>t p. if p = ''/ok'' then Contents [0x0F] else OpenFails) 0
     [\<lparr>Pathname = ''/bad'', Size = 300, Hash = ''''\<rparr>,
      \<lparr>Pathname = ''/ok'', Size = 300, Hash = ''''\<rparr>]
   = [\<lparr>Pathname = ''/ok'', Size = 300, Hash = ''0000000000000300.0f''\<rparr>]"
proof -
  let ?fs = "\<lambda>(t :: nat) p. if p = ''/ok'' then Contents [0x0F] else OpenFails"
  let ?bad = "\<lparr>Pathname = ''/bad'', Size = 300, Hash = ''''\<rparr>"
  let ?ok = "\<lparr>Pathname = ''/ok'', Size = 300, Hash = ''''\<rparr>"
  have fail: "?fs 0 (ReplaceAll_backslash (Pathname ?bad)) \<in> {OpenFails, CopyFails} \<or>
     False \<and> ?fs (Suc 0) (ReplaceAll_backslash (Pathname ?bad)) \<in> {OpenFails, CopyFails}"
    by (simp add: ReplaceAll_backslash_def)
  have reads: "1 = (if ?fs 0 (ReplaceAll_backslash (Pathname ?bad)) \<in> {OpenFails, CopyFails}
           then Suc 0 else Suc (Suc 0))"
    by (simp add: ReplaceAll_backslash_def)
  have rest: "hashingWorker False (\<lambda>bs. bs) rev ?fs 1 [?ok]
     = [\<lparr>Pathname = ''/ok'', Size = 300, Hash = ''0000000000000300.0f''\<rparr>]"
    by (simp add: hashRequest_def hashData_def Sprintf_hash_def Let_def ReplaceAll_backslash_def
        fmt_016d_300 hextable_def)
  from C6_failed_request_dropped [where fs = ?fs and t = 0 and request = ?bad
      and thorough = False and t' = 1 and sha512_sum = "\<lambda>bs. bs" and md5_sum = rev
      and requests = "[?ok]" and earlier = "[]", OF fail reads] rest
  show ?thesis by simp
qed

section \<open>Claims about the walker\<close>

lemma clamp_MinBytes_max: "clamp_MinBytes mb = max 0 mb"
  by (simp add: clamp_MinBytes_def)

lemma undersized_iff:
  fixes x :: int64
  assumes "0 \<le> m"
  shows "(x = 0 \<or> sint x < m) \<longleftrightarrow> \<not> (0 < sint x \<and> m \<le> sint x)"
proof -
  have "x = 0 \<longleftrightarrow> sint x = 0" by (simp add: signed_eq_0_iff)
  with assms show ?thesis by auto
qed

text \<open>
  C5. \<open>walkFn\<close>, called with the threshold that \<open>main\<close> has clamped, sends a request
  for an entry exactly when the entry is not a directory, has no access error, and
  its size is greater than 0 and at least the threshold (a negative threshold counting
  as 0); the request carries the path and the size, and no hash. An entry without info
  is sent in no case. A file that fails only the size test is counted in
  \<open>underSizedFiles\<close> and not sent; a file of size 0 is never sent, also with threshold 0.
\<close>

theorem C5_enqueue_iff:
  "queue_after st (walkFn (clamp_MinBytes mb) path (Some i) fileErr st) =
     (if \<not> IsDir i \<and> fileErr = None \<and> 0 < sint (InfoSize i) \<and> max 0 mb \<le> sint (InfoSize i)
      then hashReqCh st @ [\<lparr>Pathname = path, Size = InfoSize i, Hash = ''''\<rparr>]
      else hashReqCh st) \<and>
   queue_after st (walkFn (clamp_MinBytes mb) path None fileErr st) = hashReqCh st \<and>
   (\<not> IsDir i \<and> \<not> (0 < sint (InfoSize i) \<and> max 0 mb \<le> sint (InfoSize i)) \<longrightarrow>
      walkFn (clamp_MinBytes mb) path (Some i) None st =
        Inr (st\<lparr>totalFiles := totalFiles st + 1, underSizedFiles := underSizedFiles st + 1\<rparr>)) \<and>
   (InfoSize i = 0 \<longrightarrow>
      queue_after st (walkFn (clamp_MinBytes 0) path (Some i) fileErr st) = hashReqCh st)"
proof -
  have u: "(InfoSize i = 0 \<or> sint (InfoSize i) < max 0 mb) \<longleftrightarrow>
           \<not> (0 < sint (InfoSize i) \<and> max 0 mb \<le> sint (InfoSize i))"
    by (rule undersized_iff) simp
  show ?thesis
    unfolding clamp_MinBytes_max
    using u by (auto simp: walkFn_def queue_after_def Let_def)
qed

theorem C5_enqueue_iff_witness:
  "queue_after walk_init
     (walkFn (clamp_MinBytes (- 5)) ''/a'' (Some \<lparr>IsDir = False, InfoSize = 1\<rparr>) None walk_init)
     = [\<lparr>Pathname = ''/a'', Size = 1, Hash = ''''\<rparr>] \<and>
   walkFn (clamp_MinBytes 256) ''/b'' (Some \<lparr>IsDir = False, InfoSize = 10\<rparr>) None walk_init
     = Inr \<lparr>totalFiles = 1, underSizedFiles = 1, hashingFiles = 0, hashReqCh = []\<rparr> \<and>
   queue_after walk_init
     (walkFn (clamp_MinBytes 0) ''/z'' (Some \<lparr>IsDir = False, InfoSize = 0\<rparr>) None walk_init) = []"
proof -
  have a: "queue_after walk_init
     (walkFn (clamp_MinBytes (- 5)) ''/a'' (Some \<lparr>IsDir = False, InfoSize = 1\<rparr>) None walk_init)
     = [\<lparr>Pathname = ''/a'', Size = 1, Hash = ''''\<rparr>]"
    using C5_enqueue_iff [of walk_init "- 5" "''/a''" "\<lparr>IsDir = False, InfoSize = 1\<rparr>" None]
    by (simp add: walk_init_def)
  have b: "walkFn (clamp_MinBytes 256) ''/b'' (Some \<lparr>IsDir = False, InfoSize = 10\<rparr>) None walk_init
     = Inr \<lparr>totalFiles = 1, underSizedFiles = 1, hashingFiles = 0, hashReqCh = []\<rparr>"
    using C5_enqueue_iff [of walk_init 256 "''/b''" "\<lparr>IsDir = False, InfoSize = 10\<rparr>" None]
    by (simp add: walk_init_def)
  have z: "queue_after walk_init
     (walkFn (clamp_MinBytes 0) ''/z'' (Some \<lparr>IsDir = False, InfoSize = 0\<rparr>) None walk_init) = []"
    using C5_enqueue_iff [of walk_init 0 "''/z''" "\<lparr>IsDir = False, InfoSize = 0\<rparr>" None]
    by (simp add: walk_init_def queue_after_def)
  from a b z show ?thesis by blast
qed

lemma sint_of_nat_int64:
  assumes "n < 2 ^ 63"
  shows "sint (of_nat n :: int64) = int n"
proof -
  have "sint (of_nat n :: int64) = signed_take_bit 63 (int n)"
    by (simp add: signed_of_nat)
  also have "\<dots> = int n"
  proof (rule signed_take_bit_int_eq_self)
    show "- (2 ^ 63) \<le> int n" by simp
    from assms have "int n < int (2 ^ 63)" by (simp only: of_nat_less_iff)
    then show "int n < 2 ^ 63" by simp
  qed
  finally show ?thesis .
qed

lemma walkFn_nat_counters:
  assumes "walkFn mb path info fileErr st = Inr st'"
    and "totalFiles st = of_nat a" "underSizedFiles st = of_nat b" "hashingFiles st = of_nat c"
  shows "\<exists>a' b' c'. totalFiles st' = of_nat a' \<and> underSizedFiles st' = of_nat b' \<and>
           hashingFiles st' = of_nat c' \<and>
           a' + b + c = a + b' + c' + length (filter access_error_skip [(path, info, fileErr)]) \<and>
           a' \<le> Suc a \<and> b \<le> b' \<and> c \<le> c'"
proof (cases info)
  case None
  with assms(1) show ?thesis by (simp add: walkFn_def)
next
  case (Some i)
  show ?thesis
  proof (cases "IsDir i")
    case True
    with Some assms have "st' = st" by (simp add: walkFn_def)
    with Some True assms(2-4) show ?thesis
      by (intro exI [of _ a] exI [of _ b] exI [of _ c]) (simp add: access_error_skip_def)
  next
    case False
    show ?thesis
    proof (cases "fileErr = None")
      case err: False
      with Some False assms(1) have "st' = st\<lparr>totalFiles := totalFiles st + 1\<rparr>"
        by (simp add: walkFn_def Let_def)
      with Some False err assms(2-4) show ?thesis
        by (intro exI [of _ "Suc a"] exI [of _ b] exI [of _ c]) (simp add: access_error_skip_def)
    next
      case True
      show ?thesis
      proof (cases "InfoSize i = 0 \<or> sint (InfoSize i) < mb")
        case small: True
        with Some False True assms(1)
        have "st' = st\<lparr>totalFiles := totalFiles st + 1, underSizedFiles := underSizedFiles st + 1\<rparr>"
          by (simp add: walkFn_def Let_def)
        with Some False True assms(2-4) show ?thesis
          by (intro exI [of _ "Suc a"] exI [of _ "Suc b"] exI [of _ c])
            (simp add: access_error_skip_def)
      next
        case big: False
        with Some False True assms(1)
        have "totalFiles st' = totalFiles st + 1 \<and> underSizedFiles st' = underSizedFiles st \<and>
              hashingFiles st' = hashingFiles st + 1"
          by (auto simp: walkFn_def Let_def)
        with Some False True assms(2-4) show ?thesis
          by (intro exI [of _ "Suc a"] exI [of _ b] exI [of _ "Suc c"])
            (simp add: access_error_skip_def)
      qed
    qed
  qed
qed

lemma Walk_nat_counters:
  "Walk mb es st = Inr st' \<Longrightarrow>
   totalFiles st = of_nat a \<Longrightarrow> underSizedFiles st = of_nat b \<Longrightarrow> hashingFiles st = of_nat c \<Longrightarrow>
   \<exists>a' b' c'. totalFiles st' = of_nat a' \<and> underSizedFiles st' = of_nat b' \<and>
      hashingFiles st' = of_nat c' \<and>
      a' + b + c = a + b' + c' + length (filter access_error_skip es) \<and>
      a' \<le> a + length es \<and> b \<le> b' \<and> c \<le> c'"
proof (induction es arbitrary: st a b c)
  case Nil
  then show ?case by auto
next
  case (Cons e es)
  obtain path info fileErr where e: "e = (path, info, fileErr)" by (cases e)
  from Cons.prems(1) e obtain st1 where
    s1: "walkFn mb path info fileErr st = Inr st1" and s2: "Walk mb es st1 = Inr st'"
    by (auto split: sum.splits)
  from walkFn_nat_counters [OF s1 Cons.prems(2-4)] obtain a1 b1 c1 where
    w: "totalFiles st1 = of_nat a1" "underSizedFiles st1 = of_nat b1" "hashingFiles st1 = of_nat c1"
    and w1: "a1 + b + c = a + b1 + c1 + length (filter access_error_skip [(path, info, fileErr)])"
    and w2: "a1 \<le> Suc a" "b \<le> b1" "c \<le> c1"
    by blast
  from Cons.IH [OF s2 w] obtain a' b' c' where
    r: "totalFiles st' = of_nat a'" "underSizedFiles st' = of_nat b'" "hashingFiles st' = of_nat c'"
    and r1: "a' + b1 + c1 = a1 + b' + c' + length (filter access_error_skip es)"
    and r2: "a' \<le> a1 + length es" "b1 \<le> b'" "c1 \<le> c'"
    by blast
  have k: "length (filter access_error_skip (e # es)) =
        length (filter access_error_skip [(path, info, fileErr)]) + length (filter access_error_skip es)"
    using e by simp
  from w1 r1 k have "a' + b + c = a + b' + c' + length (filter access_error_skip (e # es))"
    by linarith
  moreover from w2 r2 have "a' \<le> a + length (e # es)" "b \<le> b'" "c \<le> c'" by simp_all
  ultimately show ?case using r by blast
qed

text \<open>
  C7. When the traversal completes, \<open>totalFiles\<close> is the sum of \<open>underSizedFiles\<close>,
  \<open>hashingFiles\<close> and the number of entries that are not directories and were skipped
  for their access error. The counters are \<open>int64\<close>: the equation holds in \<open>int64\<close>
  arithmetic for every traversal, and between the integers the counters denote when
  the traversal has fewer than \<open>2^63\<close> entries.
\<close>

theorem C7_counter_balance:
  assumes "Walk minBytes entries walk_init = Inr st"
  shows "totalFiles st =
           underSizedFiles st + hashingFiles st +
           of_nat (length (filter access_error_skip entries)) \<and>
         (length entries < 2 ^ 63 \<longrightarrow>
            sint (totalFiles st) =
              sint (underSizedFiles st) + sint (hashingFiles st) +
              int (length (filter access_error_skip entries)))"
proof -
  from Walk_nat_counters [OF assms, of 0 0 0] obtain a b c where
    r: "totalFiles st = of_nat a" "underSizedFiles st = of_nat b" "hashingFiles st = of_nat c"
    and eq: "a = b + c + length (filter access_error_skip entries)"
    and le: "a \<le> length entries"
    by (auto simp: walk_init_def)
  have word: "totalFiles st =
      underSizedFiles st + hashingFiles st + of_nat (length (filter access_error_skip entries))"
    unfolding r eq by simp
  have "sint (totalFiles st) =
      sint (underSizedFiles st) + sint (hashingFiles st) +
      int (length (filter access_error_skip entries))" if "length entries < 2 ^ 63"
  proof -
    from that le eq have "a < 2 ^ 63" "b < 2 ^ 63" "c < 2 ^ 63" by simp_all
    then have "sint (totalFiles st) = int a" "sint (underSizedFiles st) = int b"
      "sint (hashingFiles st) = int c"
      unfolding r by (simp_all only: sint_of_nat_int64)
    moreover from eq have "int a = int b + int c + int (length (filter access_error_skip entries))"
      by simp
    ultimately show ?thesis by simp
  qed
  with word show ?thesis by blast
qed

theorem C7_counter_balance_witness:
  "Walk 256
     [(''/d'', Some \<lparr>IsDir = True, InfoSize = 4096\<rparr>, None),
      (''/d/a'', Some \<lparr>IsDir = False, InfoSize = 300\<rparr>, None),
      (''/d/b'', Some \<lparr>IsDir = False, InfoSize = 10\<rparr>, None),
      (''/d/c'', Some \<lparr>IsDir = False, InfoSize = 300\<rparr>, Some AccessError)] walk_init
     = Inr \<lparr>totalFiles = 3, underSizedFiles = 1, hashingFiles = 1,
            hashReqCh = [\<lparr>Pathname = ''/d/a'', Size = 300, Hash = ''''\<rparr>]\<rparr> \<and>
   (3 :: int64) = 1 + 1 + of_nat (length (filter access_error_skip
     [(''/d'', Some \<lparr>IsDir = True, InfoSize = 4096\<rparr>, None),
      (''/d/a'', Some \<lparr>IsDir = False, InfoSize = 300\<rparr>, None),
      (''/d/b'', Some \<lparr>IsDir = False, InfoSize = 10\<rparr>, None),
      (''/d/c'', Some \<lparr>IsDir = False, InfoSize = 300\<rparr>, Some AccessError)])) \<and>
   sint (3 :: int64) = sint (1 :: int64) + sint (1 :: int64) + int (length (filter access_error_skip
     [(''/d'', Some \<lparr>IsDir = True, InfoSize = 4096\<rparr>, None),
      (''/d/a'', Some \<lparr>IsDir = False, InfoSize = 300\<rparr>, None),
      (''/d/b'', Some \<lparr>IsDir = False, InfoSize = 10\<rparr>, None),
      (''/d/c'', Some \<lparr>IsDir = False, InfoSize = 300\<rparr>, Some AccessError)]))"
proof -
  let ?es = "[(''/d'', Some \<lparr>IsDir = True, InfoSize = 4096\<rparr>, None),
      (''/d/a'', Some \<lparr>IsDir = False, InfoSize = 300\<rparr>, None),
      (''/d/b'', Some \<lparr>IsDir = False, InfoSize = 10\<rparr>, None),
      (''/d/c'', Some \<lparr>IsDir = False, InfoSize = 300\<rparr>, Some AccessError)]"
  have w: "Walk 256 ?es walk_init
     = Inr \<lparr>totalFiles = 3, underSizedFiles = 1, hashingFiles = 1,
            hashReqCh = [\<lparr>Pathname = ''/d/a'', Size = 300, Hash = ''''\<rparr>]\<rparr>"
    by (simp add: walkFn_def walk_init_def Let_def)
  have len: "length ?es < 2 ^ 63" by simp
  from C7_counter_balance [OF w] len w show ?thesis by simp
qed

text \<open>
  With an info, an entry delivered with an access error is skipped: counted in
  \<open>totalFiles\<close> unless it is a directory, and never sent.
\<close>

lemma walkFn_error_with_info:
  "walkFn minBytes path (Some i) (Some e) st =
     Inr (if IsDir i then st else st\<lparr>totalFiles := totalFiles st + 1\<rparr>)"
  by (simp add: walkFn_def Let_def)

text \<open>
  C9. For an entry delivered with an access error and without an info, as
  \<^verbatim>\<open>filepath.Walk\<close> delivers an entry whose \<^verbatim>\<open>Lstat\<close> failed, \<open>walkFn\<close> does not
  return: it calls \<^verbatim>\<open>info.IsDir()\<close> before it looks at the error, and panics. The entry
  is not counted, and the scan ends with the panic.
\<close>

theorem C9_nil_info_panics:
  "walkFn 256 ''/gone'' None (Some AccessError) walk_init = Inl NilPointerDereference \<and>
   scan \<lparr>BasePath = ''/gone'', MinBytes = 256, Threads = 9, Thorough = False,
         ListCollisions = False\<rparr>
     (\<lambda>bs. bs) rev [(''/gone'', None, Some AccessError)] (\<lambda>t p. OpenFails)
   = Inl NilPointerDereference"
  by (simp add: scan_def clamp_MinBytes_def walkFn_def)

section \<open>Claims about the reported figures\<close>

text \<open>
  C8. The figures the log line reports are computed from the walker's counter
  \<open>hashingFiles\<close>, which counts the requests sent, not the replies received. With one
  file of 300 bytes that cannot be opened, the scan sends one request and gets no
  reply: the table is empty (no paths, no buckets), and yet the log line reports one
  colliding file and one duplicate.
\<close>

theorem C8_reported_counts_with_drop:
  "scan \<lparr>BasePath = ''.'', MinBytes = 256, Threads = 9, Thorough = False, ListCollisions = False\<rparr>
     (\<lambda>bs. bs) rev
     [(''./a'', Some \<lparr>IsDir = False, InfoSize = 300\<rparr>, None)]
     (\<lambda>t p. OpenFails)
   = Inr ((Map.empty, \<lparr>Misses = 0, Collisions = 1, Hashes = 0, Dupes = 1\<rparr>),
          \<lparr>totalFiles = 1, underSizedFiles = 0, hashingFiles = 1,
           hashReqCh = [\<lparr>Pathname = ''./a'', Size = 300, Hash = ''''\<rparr>]\<rparr>) \<and>
   paths_in_buckets Map.empty = 0 \<and> len_map Map.empty = 0"
  by (simp add: scan_def clamp_MinBytes_def walkFn_def walk_init_def Let_def
      hashRequest_def hashData_def ReplaceAll_backslash_def
      aggregateHashes_def aggregate_loop_def agg_init_def len_map_def paths_in_buckets_def)

end
